theory Spec2Isabelle
  imports Main "HOL-Library.Sublist"
begin

section \<open>Python strings\<close>

text \<open>
  A Python \<open>str\<close> is a sequence of Unicode code points. Author names carry code points
  far beyond one byte (U+200B, U+202F, U+223C, U+FEFF), so a string is a list of code
  point numbers, not a list of 8-bit characters.
\<close>

type_synonym ustring = "nat list"

text \<open>An ASCII literal, read as a Python string.\<close>

definition ascii :: "string \<Rightarrow> ustring" where
  "ascii s = map of_char s"

text \<open>
  \<open>str.isspace\<close> of one code point, which is also the whitespace class of a \<open>str\<close>
  pattern: U+0009..U+000D, U+001C..U+0020, U+0085, U+00A0, U+1680, U+2000..U+200A,
  U+2028, U+2029, U+202F, U+205F, U+3000.
\<close>

definition py_isspace :: "nat \<Rightarrow> bool" where
  "py_isspace c \<longleftrightarrow>
     (9 \<le> c \<and> c \<le> 13) \<or> (28 \<le> c \<and> c \<le> 32) \<or> c = 133 \<or> c = 160 \<or> c = 5760 \<or>
     (8192 \<le> c \<and> c \<le> 8202) \<or> c = 8232 \<or> c = 8233 \<or> c = 8239 \<or> c = 8287 \<or> c = 12288"

text \<open>\<open>s.strip()\<close>: whitespace removed at both ends.\<close>

definition py_strip :: "ustring \<Rightarrow> ustring" where
  "py_strip s = rev (dropWhile py_isspace (rev (dropWhile py_isspace s)))"

text \<open>\<open>d in a\<close> on two strings: \<open>d\<close> occurs in \<open>a\<close> as a contiguous run.\<close>

fun py_startswith :: "ustring \<Rightarrow> ustring \<Rightarrow> bool" where
  "py_startswith a [] = True"
| "py_startswith [] (c # d) = False"
| "py_startswith (x # a) (c # d) = (x = c \<and> py_startswith a d)"

fun py_in :: "ustring \<Rightarrow> ustring \<Rightarrow> bool" where
  "py_in d [] = (d = [])"
| "py_in d (x # a) = (py_startswith (x # a) d \<or> py_in d a)"

text \<open>
  \<open>s.lower()\<close>. On ASCII text it maps \<open>A..Z\<close> to \<open>a..z\<close> code point by code point; what
  the Unicode tables do with other text is the parameter \<open>ext\<close>.
\<close>

definition ascii_lower :: "nat \<Rightarrow> nat" where
  "ascii_lower c = (if 65 \<le> c \<and> c \<le> 90 then c + 32 else c)"

definition py_lower :: "(ustring \<Rightarrow> ustring) \<Rightarrow> ustring \<Rightarrow> ustring" where
  "py_lower ext s = (if list_all (\<lambda>c. c < 128) s then map ascii_lower s else ext s)"

text \<open>
  \<open>unicodedata.normalize("NFKC", s)\<close>. Text that is all ASCII is its own NFKC form; the
  library's tables for other text are the parameter \<open>ext\<close>.
\<close>

definition normalize_NFKC :: "(ustring \<Rightarrow> ustring) \<Rightarrow> ustring \<Rightarrow> ustring" where
  "normalize_NFKC ext s = (if list_all (\<lambda>c. c < 128) s then s else ext s)"

section \<open>Author normalization (\<open>WhatsappPreprocessor.normalize_author\<close>)\<close>

text \<open>Line 57: the zero-width code points U+200B, U+200C, U+200D and U+FEFF are deleted.\<close>

definition remove_zero_width :: "ustring \<Rightarrow> ustring" where
  "remove_zero_width s = filter (\<lambda>c. \<not> ((8203 \<le> c \<and> c \<le> 8205) \<or> c = 65279)) s"

text \<open>Lines 59 and 60: U+00A0 becomes a space, then U+202F becomes a space.\<close>

definition replace_nbsp :: "ustring \<Rightarrow> ustring" where
  "replace_nbsp s = map (\<lambda>c. if c = 8239 then 32 else c) (map (\<lambda>c. if c = 160 then 32 else c) s)"

text \<open>
  Line 62: a tilde (U+007E or U+223C) at the start of the string is deleted together with
  the whitespace run after it. Without the multi-line flag the anchor matches at the
  start of the string only, so at most one tilde goes.
\<close>

definition strip_leading_tilde :: "ustring \<Rightarrow> ustring" where
  "strip_leading_tilde s =
     (case s of
        [] \<Rightarrow> []
      | c # cs \<Rightarrow> if c = 126 \<or> c = 8764 then dropWhile py_isspace cs else s)"

text \<open>Line 64, the substitution: every maximal run of whitespace becomes one space.\<close>

function collapse_whitespace :: "ustring \<Rightarrow> ustring" where
  "collapse_whitespace [] = []"
| "collapse_whitespace (c # cs) =
     (if py_isspace c then 32 # collapse_whitespace (dropWhile py_isspace cs)
      else c # collapse_whitespace cs)"
  by pat_completeness auto
termination
  by (relation "measure length") (auto simp: length_dropWhile_le less_Suc_eq_le)

text \<open>The string branch of \<open>normalize_author\<close>, lines 55 to 65.\<close>

definition normalize_str :: "(ustring \<Rightarrow> ustring) \<Rightarrow> ustring \<Rightarrow> ustring" where
  "normalize_str ext name =
     py_strip (collapse_whitespace (strip_leading_tilde (replace_nbsp
       (remove_zero_width (normalize_NFKC ext name)))))"

text \<open>
  The argument of \<open>normalize_author\<close> is any Python object; the type hint is not
  enforced. Only the distinction between a \<open>str\<close> and anything else matters here.
\<close>

datatype pyval = PyStr ustring | PyNone | PyBool bool | PyInt int | PyList "pyval list"

fun isinstance_str :: "pyval \<Rightarrow> bool" where
  "isinstance_str (PyStr s) = True"
| "isinstance_str v = False"

definition normalize_author :: "(ustring \<Rightarrow> ustring) \<Rightarrow> pyval \<Rightarrow> pyval" where
  "normalize_author ext name =
     (if \<not> isinstance_str name then name
      else case name of PyStr s \<Rightarrow> PyStr (normalize_str ext s) | v \<Rightarrow> v)"

section \<open>The parsing pass (\<open>WhatsappPreprocessor.process\<close>)\<close>

text \<open>
  A timestamp is an aware UTC \<open>datetime\<close>; only its position on the time line matters, so
  it is the number of seconds since the epoch.
\<close>

type_synonym timestamp = int

text \<open>
  \<open>m.groups()\<close> of a match object: one entry per capture group of the pattern, \<open>None\<close>
  for a group that took no part in the match.
\<close>

type_synonym groups = "ustring option list"

text \<open>
  The configuration of a run. The three patterns live in \<open>wa_analyzer.settings\<close>; each is
  taken as the function it induces on a line: \<open>tsreg\<close> is \<open>re.match(tsreg, line)\<close>,
  \<open>messagereg\<close> and \<open>authorreg\<close> are \<open>re.search\<close>, with \<open>None\<close> for no match and the
  groups of the match otherwise. \<open>strptime\<close> is \<open>datetime.strptime\<close> under the configured
  \<open>datetime_format\<close>, made UTC, with \<open>None\<close> for \<open>ValueError\<close>. \<open>nfkc\<close> is the Unicode table
  behind \<open>normalize_NFKC\<close>.
\<close>

record config =
  tsreg :: "ustring \<Rightarrow> groups option"
  messagereg :: "ustring \<Rightarrow> groups option"
  authorreg :: "ustring \<Rightarrow> groups option"
  strptime :: "ustring \<Rightarrow> timestamp option"
  drop_authors :: "ustring list"
  nfkc :: "ustring \<Rightarrow> ustring"

text \<open>
  The variables of \<open>process\<close> that live across iterations of the loop. \<open>timestamp\<close>,
  \<open>author\<close> and \<open>msg\<close> are unbound (\<open>None\<close>) until first assigned.
\<close>

record pstate =
  records :: "(timestamp \<times> ustring \<times> ustring) list"
  appended :: "timestamp list"
  timestamp :: "timestamp option"
  author :: "ustring option"
  msg :: "ustring option"

definition init :: pstate where
  "init = \<lparr>records = [], appended = [], timestamp = None, author = None, msg = None\<rparr>"

text \<open>The exceptions the loop body can raise and does not catch.\<close>

datatype error = IndexError | TypeError | AttributeError | UnboundLocalError

text \<open>\<open>any(drop_author in author for drop_author in self.drop_authors)\<close>, line 124.\<close>

definition drop_filter :: "ustring list \<Rightarrow> ustring \<Rightarrow> bool" where
  "drop_filter ds a = list_ex (\<lambda>drop_author. py_in drop_author a) ds"

text \<open>
  One iteration of the loop, lines 99 to 132. Every \<open>continue\<close> returns the state as it
  is at that point: \<open>timestamp\<close> is assigned at line 102 and \<open>author\<close> at line 123, before
  the checks that follow them. \<open>raw_author\<close> is the result of \<open>str.strip\<close>, a string, so
  \<open>normalize_author\<close> takes its string branch, \<open>normalize_str\<close>. A line is one element of
  \<open>f.readlines()\<close>, with its newline.
\<close>

definition process_line :: "config \<Rightarrow> pstate \<Rightarrow> ustring \<Rightarrow> error + pstate" where
  "process_line cfg st line =
     (case tsreg cfg line of
        Some ts \<Rightarrow>
          (case ts of
             [] \<Rightarrow> Inl IndexError
           | g # _ \<Rightarrow>
               (case g of
                  None \<Rightarrow> Inl TypeError
                | Some tstr \<Rightarrow>
                    (case strptime cfg tstr of
                       None \<Rightarrow> Inr st
                     | Some t \<Rightarrow>
                         let st1 = st\<lparr>timestamp := Some t\<rparr> in
                         (case messagereg cfg line of
                            None \<Rightarrow> Inr st1
                          | Some msg_ \<Rightarrow>
                              (case authorreg cfg line of
                                 None \<Rightarrow> Inr st1
                               | Some author_ \<Rightarrow>
                                   (case author_ of
                                      [] \<Rightarrow> Inl IndexError
                                    | ga # _ \<Rightarrow>
                                        (case ga of
                                           None \<Rightarrow> Inl AttributeError
                                         | Some araw \<Rightarrow>
                                             let raw_author = py_strip araw;
                                                 a = normalize_str (nfkc cfg) raw_author;
                                                 st2 = st1\<lparr>author := Some a\<rparr>
                                             in if drop_filter (drop_authors cfg) a then Inr st2
                                                else
                                                  (case msg_ of
                                                     [] \<Rightarrow> Inl IndexError
                                                   | gm # _ \<Rightarrow>
                                                       (case gm of
                                                          None \<Rightarrow> Inl AttributeError
                                                        | Some mraw \<Rightarrow>
                                                            let m = py_strip mraw in
                                                            Inr (st2\<lparr>msg := Some m,
                                                              records := records st2 @ [(t, a, m)]\<rparr>))))))))))
      | None \<Rightarrow>
          if length (records st) > 0 then
            (case timestamp st of
               None \<Rightarrow> Inl UnboundLocalError
             | Some t \<Rightarrow>
                 (case msg st of
                    None \<Rightarrow> Inl UnboundLocalError
                  | Some m \<Rightarrow>
                      (case author st of
                         None \<Rightarrow> Inl UnboundLocalError
                       | Some a \<Rightarrow>
                           let m' = m @ 32 # py_strip line in
                           Inr (st\<lparr>appended := appended st @ [t], msg := Some m',
                             records := (records st)[length (records st) - 1 := (t, a, m')]\<rparr>))))
          else Inr st)"

text \<open>The \<open>for\<close> loop over the lines; an exception ends it.\<close>

fun process_loop :: "config \<Rightarrow> pstate \<Rightarrow> ustring list \<Rightarrow> error + pstate" where
  "process_loop cfg st [] = Inr st"
| "process_loop cfg st (line # rest) =
     (case process_line cfg st line of
        Inl e \<Rightarrow> Inl e
      | Inr st' \<Rightarrow> process_loop cfg st' rest)"

text \<open>\<open>process\<close> on the lines of the data file: it returns \<open>records, appended\<close>.\<close>

definition process ::
  "config \<Rightarrow> ustring list \<Rightarrow> error + ((timestamp \<times> ustring \<times> ustring) list \<times> timestamp list)" where
  "process cfg lines =
     (case process_loop cfg init lines of
        Inl e \<Rightarrow> Inl e
      | Inr st \<Rightarrow> Inr (records st, appended st))"

section \<open>Dialect selection (\<open>main\<close>)\<close>

text \<open>
  The four pattern bundles of \<open>wa_analyzer.settings\<close>, whatever they hold.
\<close>

record 'r catalog =
  androidRegexes :: 'r
  iosRegexes :: 'r
  oldRegexes :: 'r
  csvRegexes :: 'r

text \<open>The \<open>if\<close> chain of \<open>main\<close>, lines 152 to 163, on the \<open>--device\<close> option.\<close>

definition select_regexes :: "(ustring \<Rightarrow> ustring) \<Rightarrow> 'r catalog \<Rightarrow> ustring \<Rightarrow> 'r" where
  "select_regexes ext cat device =
     (if py_lower ext device = ascii ''ios'' then iosRegexes cat
      else if py_lower ext device = ascii ''old'' then oldRegexes cat
      else if py_lower ext device = ascii ''csv'' then csvRegexes cat
      else androidRegexes cat)"

section \<open>Notions used to state the properties\<close>

text \<open>The first group of a match, when the pattern matched and the group took part.\<close>

fun group0 :: "groups option \<Rightarrow> ustring option" where
  "group0 (Some (Some s # gs)) = Some s"
| "group0 m = None"

text \<open>
  The timestamp a line assigns to the variable \<open>timestamp\<close> at line 102: the line matches
  the timestamp pattern and its first group parses.
\<close>

definition parsed_timestamp :: "config \<Rightarrow> ustring \<Rightarrow> timestamp option" where
  "parsed_timestamp cfg line =
     (case group0 (tsreg cfg line) of None \<Rightarrow> None | Some tstr \<Rightarrow> strptime cfg tstr)"

text \<open>
  The record a fully accepted header line appends at line 128: the timestamp parses, the
  message and author patterns match with their first groups, the author passes the filter.
\<close>

definition accepted :: "config \<Rightarrow> ustring \<Rightarrow> (timestamp \<times> ustring \<times> ustring) option" where
  "accepted cfg line =
     (case parsed_timestamp cfg line of
        None \<Rightarrow> None
      | Some t \<Rightarrow>
          (case group0 (messagereg cfg line) of
             None \<Rightarrow> None
           | Some mraw \<Rightarrow>
               (case group0 (authorreg cfg line) of
                  None \<Rightarrow> None
                | Some araw \<Rightarrow>
                    let a = normalize_str (nfkc cfg) (py_strip araw)
                    in if drop_filter (drop_authors cfg) a then None
                       else Some (t, a, py_strip mraw))))"

text \<open>A string that begins with one of the two tilde characters of line 62.\<close>

definition starts_with_tilde :: "ustring \<Rightarrow> bool" where
  "starts_with_tilde s = (case s of [] \<Rightarrow> False | c # cs \<Rightarrow> c = 126 \<or> c = 8764)"

text \<open>
  Whitespace in normal form: every whitespace character is a space, and no two are
  adjacent.
\<close>

fun ws_normal :: "ustring \<Rightarrow> bool" where
  "ws_normal [] = True"
| "ws_normal (c # cs) =
     ((py_isspace c \<longrightarrow> c = 32 \<and> (cs = [] \<or> \<not> py_isspace (hd cs))) \<and> ws_normal cs)"

text \<open>
  The loop invariant behind line 131: once a record exists the three variables are bound,
  and \<open>msg\<close> holds the message of the last record.
\<close>

definition vars_bound :: "pstate \<Rightarrow> bool" where
  "vars_bound st \<longleftrightarrow>
     (records st \<noteq> [] \<longrightarrow>
        timestamp st \<noteq> None \<and> author st \<noteq> None \<and>
        msg st = Some (snd (snd (last (records st)))))"

text \<open>
  The loop invariant behind the order of the timestamps: the records are in order of
  time, and none is later than the value of the variable \<open>timestamp\<close>.
\<close>

definition ts_ordered :: "pstate \<Rightarrow> bool" where
  "ts_ordered st \<longleftrightarrow>
     sorted (map fst (records st)) \<and>
     (\<forall>tc. timestamp st = Some tc \<longrightarrow> (\<forall>r \<in> set (records st). fst r \<le> tc))"

text \<open>
  The one entry of the NFKC table that the example of the specification needs: U+00A0 has
  the compatibility decomposition U+0020.
\<close>

definition nfkc_nbsp :: "ustring \<Rightarrow> ustring" where
  "nfkc_nbsp s = map (\<lambda>c. if c = 160 then 32 else c) s"

section \<open>An example transcript\<close>

text \<open>
  Lines in the layout of the specification's example, each as \<open>readlines\<close> returns it, with
  its newline. The patterns are tabulated on these lines: the timestamp pattern matches the
  date and time at the start of a line, the author pattern the name between the dash and
  the colon, the message pattern the text after the colon. \<open>line_left\<close> has no colon after
  the name, so neither the author nor the message pattern matches it; \<open>line_badts\<close> has
  month 13, which the timestamp pattern matches and \<open>strptime\<close> rejects.
\<close>

definition readline :: "string \<Rightarrow> ustring" where
  "readline s = ascii s @ [10]"

definition line_alice :: ustring where
  "line_alice = readline ''2023-01-01, 10:00 - Alice: Hello''"

definition line_world :: ustring where
  "line_world = readline ''world''"

definition line_bob :: ustring where
  "line_bob = readline ''2023-01-01, 10:01 - Bob: Hi''"

definition line_system :: ustring where
  "line_system = readline ''2023-01-01, 10:02 - System: joined''"

definition line_left :: ustring where
  "line_left = readline ''2023-01-01, 10:03 - Carol left''"

definition line_badts :: ustring where
  "line_badts = readline ''2023-13-01, 10:04 - Dave: Yo''"

definition line_early :: ustring where
  "line_early = readline ''2023-01-01, 09:59 - Eve: Early''"

definition example_cfg :: config where
  "example_cfg =
     \<lparr>tsreg = map_of
        [(line_alice, [Some (ascii ''2023-01-01, 10:00'')]),
         (line_bob, [Some (ascii ''2023-01-01, 10:01'')]),
         (line_system, [Some (ascii ''2023-01-01, 10:02'')]),
         (line_left, [Some (ascii ''2023-01-01, 10:03'')]),
         (line_badts, [Some (ascii ''2023-13-01, 10:04'')]),
         (line_early, [Some (ascii ''2023-01-01, 09:59'')])],
      messagereg = map_of
        [(line_alice, [Some (ascii ''Hello'')]),
         (line_bob, [Some (ascii ''Hi'')]),
         (line_system, [Some (ascii ''joined'')]),
         (line_badts, [Some (ascii ''Yo'')]),
         (line_early, [Some (ascii ''Early'')])],
      authorreg = map_of
        [(line_alice, [Some (ascii ''Alice'')]),
         (line_bob, [Some (ascii ''Bob'')]),
         (line_system, [Some (ascii ''System'')]),
         (line_badts, [Some (ascii ''Dave'')]),
         (line_early, [Some (ascii ''Eve'')])],
      strptime = map_of
        [(ascii ''2023-01-01, 09:59'', 1672567140),
         (ascii ''2023-01-01, 10:00'', 1672567200),
         (ascii ''2023-01-01, 10:01'', 1672567260),
         (ascii ''2023-01-01, 10:02'', 1672567320),
         (ascii ''2023-01-01, 10:03'', 1672567380)],
      drop_authors = [ascii ''System''],
      nfkc = id\<rparr>"

section \<open>Substring containment and the author filter\<close>

lemma py_startswith_iff: "py_startswith a d \<longleftrightarrow> (\<exists>q. a = d @ q)"
  by (induction a d rule: py_startswith.induct) auto

lemma py_in_iff: "py_in d a \<longleftrightarrow> (\<exists>p q. a = p @ d @ q)"
proof (induction a)
  case Nil
  show ?case by auto
next
  case (Cons x a)
  have "(\<exists>p q. x # a = p @ d @ q) \<longleftrightarrow> (\<exists>q. x # a = d @ q) \<or> (\<exists>p q. a = p @ d @ q)"
  proof
    assume "\<exists>p q. x # a = p @ d @ q"
    then obtain p q where e: "x # a = p @ d @ q" by blast
    show "(\<exists>q. x # a = d @ q) \<or> (\<exists>p q. a = p @ d @ q)"
    proof (cases p)
      case Nil
      with e show ?thesis by auto
    next
      case (Cons y p')
      with e have "a = p' @ d @ q" by simp
      then show ?thesis by blast
    qed
  next
    assume "(\<exists>q. x # a = d @ q) \<or> (\<exists>p q. a = p @ d @ q)"
    then show "\<exists>p q. x # a = p @ d @ q"
    proof
      assume "\<exists>q. x # a = d @ q"
      then obtain q where "x # a = [] @ d @ q" by auto
      then show ?thesis by blast
    next
      assume "\<exists>p q. a = p @ d @ q"
      then obtain p q where "a = p @ d @ q" by blast
      then have "x # a = (x # p) @ d @ q" by simp
      then show ?thesis by blast
    qed
  qed
  with Cons show ?case by (simp add: py_startswith_iff)
qed

text \<open>
  Claim C7. For every list of drop-substrings \<open>ds\<close> and every normalized author \<open>a\<close>, the
  filter of line 124 excludes \<open>a\<close> exactly when some element of \<open>ds\<close> occurs in \<open>a\<close> as a
  contiguous substring (\<open>a = p @ d @ q\<close>, not equality); with no drop-substring configured
  no author is excluded.
\<close>

theorem drop_filter_substring:
  "(drop_filter ds a \<longleftrightarrow> (\<exists>d \<in> set ds. \<exists>p q. a = p @ d @ q)) \<and> \<not> drop_filter [] a"
  by (simp add: drop_filter_def list_ex_iff py_in_iff)

theorem drop_filter_substring_witness:
  "drop_filter [ascii ''Sys'', ascii ''Bot''] (ascii ''The System'') \<and>
   (\<exists>d \<in> set [ascii ''Sys'', ascii ''Bot'']. \<exists>p q. ascii ''The System'' = p @ d @ q) \<and>
   \<not> drop_filter [ascii ''System''] (ascii ''Sys'') \<and>
   \<not> (\<exists>d \<in> set [ascii ''System'']. \<exists>p q. ascii ''Sys'' = p @ d @ q)"
proof -
  have e1: "drop_filter [ascii ''Sys'', ascii ''Bot''] (ascii ''The System'')"
    by (simp add: drop_filter_def ascii_def)
  have e2: "\<not> drop_filter [ascii ''System''] (ascii ''Sys'')"
    by (simp add: drop_filter_def ascii_def)
  from e1 e2
    drop_filter_substring [of "[ascii ''Sys'', ascii ''Bot'']" "ascii ''The System''"]
    drop_filter_substring [of "[ascii ''System'']" "ascii ''Sys''"]
  show ?thesis by blast
qed

section \<open>Dialect selection\<close>

text \<open>
  Claim C8. The selector is compared after lowercasing: a selector whose lowercase form is
  \<open>ios\<close>, \<open>old\<close> or \<open>csv\<close> selects that bundle, one whose lowercase form is \<open>android\<close> or
  anything else selects the android bundle, and two ASCII selectors that differ in case
  only select the same bundle.
\<close>

theorem select_regexes_case_insensitive:
  "(py_lower ext device = ascii ''ios'' \<longrightarrow> select_regexes ext cat device = iosRegexes cat) \<and>
   (py_lower ext device = ascii ''old'' \<longrightarrow> select_regexes ext cat device = oldRegexes cat) \<and>
   (py_lower ext device = ascii ''csv'' \<longrightarrow> select_regexes ext cat device = csvRegexes cat) \<and>
   (py_lower ext device = ascii ''android'' \<longrightarrow> select_regexes ext cat device = androidRegexes cat) \<and>
   (py_lower ext device \<notin> {ascii ''ios'', ascii ''old'', ascii ''csv''} \<longrightarrow>
      select_regexes ext cat device = androidRegexes cat) \<and>
   (list_all (\<lambda>c. c < 128) device \<and> list_all (\<lambda>c. c < 128) device' \<and>
    map ascii_lower device = map ascii_lower device' \<longrightarrow>
      select_regexes ext cat device = select_regexes ext cat device')"
  by (simp add: select_regexes_def ascii_def py_lower_def)

theorem select_regexes_case_insensitive_witness:
  "select_regexes id (\<lparr>androidRegexes = 0, iosRegexes = 1, oldRegexes = 2, csvRegexes = 3\<rparr> :: nat catalog) (ascii ''iOS'') = 1 \<and>
   select_regexes id (\<lparr>androidRegexes = 0, iosRegexes = 1, oldRegexes = 2, csvRegexes = 3\<rparr> :: nat catalog) (ascii ''OLD'') = 2 \<and>
   select_regexes id (\<lparr>androidRegexes = 0, iosRegexes = 1, oldRegexes = 2, csvRegexes = 3\<rparr> :: nat catalog) (ascii ''Csv'') = 3 \<and>
   select_regexes id (\<lparr>androidRegexes = 0, iosRegexes = 1, oldRegexes = 2, csvRegexes = 3\<rparr> :: nat catalog) (ascii ''Android'') = 0 \<and>
   select_regexes id (\<lparr>androidRegexes = 0, iosRegexes = 1, oldRegexes = 2, csvRegexes = 3\<rparr> :: nat catalog) (ascii ''windows'') = 0"
proof -
  let ?cat = "\<lparr>androidRegexes = 0, iosRegexes = 1, oldRegexes = 2, csvRegexes = 3\<rparr> :: nat catalog"
  have l1: "py_lower id (ascii ''iOS'') = ascii ''ios''"
    and l2: "py_lower id (ascii ''OLD'') = ascii ''old''"
    and l3: "py_lower id (ascii ''Csv'') = ascii ''csv''"
    and l4: "py_lower id (ascii ''Android'') = ascii ''android''"
    and l5: "py_lower id (ascii ''windows'') \<notin> {ascii ''ios'', ascii ''old'', ascii ''csv''}"
    by (simp_all add: py_lower_def ascii_def ascii_lower_def)
  from l1 l2 l3 l4 l5
    select_regexes_case_insensitive [of id "ascii ''iOS''" ?cat]
    select_regexes_case_insensitive [of id "ascii ''OLD''" ?cat]
    select_regexes_case_insensitive [of id "ascii ''Csv''" ?cat]
    select_regexes_case_insensitive [of id "ascii ''Android''" ?cat]
    select_regexes_case_insensitive [of id "ascii ''windows''" ?cat]
  show ?thesis by simp
qed

section \<open>Author normalization\<close>

lemma set_py_strip: "set (py_strip s) \<subseteq> set s"
proof -
  have "set (py_strip s) \<subseteq> set (dropWhile py_isspace s)"
    unfolding py_strip_def using set_dropWhileD [of _ py_isspace "rev (dropWhile py_isspace s)"]
    by auto
  also have "\<dots> \<subseteq> set s"
    using set_dropWhileD [of _ py_isspace s] by auto
  finally show ?thesis .
qed

lemma set_collapse_whitespace: "set (collapse_whitespace s) \<subseteq> insert 32 (set s)"
proof (induction s rule: collapse_whitespace.induct)
  case 1
  show ?case by simp
next
  case (2 c cs)
  show ?case
  proof (cases "py_isspace c")
    case True
    with 2 have "set (collapse_whitespace (dropWhile py_isspace cs)) \<subseteq> insert 32 (set (dropWhile py_isspace cs))"
      by simp
    moreover have "set (dropWhile py_isspace cs) \<subseteq> set cs"
      using set_dropWhileD [of _ py_isspace cs] by auto
    ultimately show ?thesis using True by auto
  next
    case False
    with 2 show ?thesis by auto
  qed
qed

lemma set_strip_leading_tilde: "set (strip_leading_tilde s) \<subseteq> set s"
  using set_dropWhileD [of _ py_isspace "tl s"]
  by (cases s) (auto simp: strip_leading_tilde_def)

lemma set_replace_nbsp: "set (replace_nbsp s) \<subseteq> insert 32 (set s) - {160, 8239}"
  by (auto simp: replace_nbsp_def)

lemma set_remove_zero_width:
  "set (remove_zero_width s) \<subseteq> {c. \<not> ((8203 \<le> c \<and> c \<le> 8205) \<or> c = 65279)}"
  by (auto simp: remove_zero_width_def)

lemma set_normalize_str:
  assumes "c \<in> set (normalize_str ext s)"
  shows "\<not> (8203 \<le> c \<and> c \<le> 8205) \<and> c \<noteq> 65279 \<and> c \<noteq> 160 \<and> c \<noteq> 8239"
proof -
  let ?z = "remove_zero_width (normalize_NFKC ext s)"
  have "set (normalize_str ext s) \<subseteq> insert 32 (set (replace_nbsp ?z))"
    unfolding normalize_str_def
    using set_py_strip [of "collapse_whitespace (strip_leading_tilde (replace_nbsp ?z))"]
      set_collapse_whitespace [of "strip_leading_tilde (replace_nbsp ?z)"]
      set_strip_leading_tilde [of "replace_nbsp ?z"]
    by blast
  with assms have "c = 32 \<or> c \<in> set (replace_nbsp ?z)" by blast
  then show ?thesis
  proof
    assume "c = 32"
    then show ?thesis by simp
  next
    assume "c \<in> set (replace_nbsp ?z)"
    with set_replace_nbsp [of ?z] have n: "c \<noteq> 160 \<and> c \<noteq> 8239" and "c = 32 \<or> c \<in> set ?z"
      by auto
    from this(2) show ?thesis
    proof
      assume "c = 32"
      then show ?thesis by simp
    next
      assume "c \<in> set ?z"
      with set_remove_zero_width [of "normalize_NFKC ext s"]
      have "\<not> ((8203 \<le> c \<and> c \<le> 8205) \<or> c = 65279)" by blast
      with n show ?thesis by simp
    qed
  qed
qed

lemma hd_collapse_whitespace:
  "d = [] \<or> \<not> py_isspace (hd d) \<Longrightarrow>
   collapse_whitespace d = [] \<or> \<not> py_isspace (hd (collapse_whitespace d))"
  by (cases d) auto

lemma dropWhile_hd: "dropWhile P xs = [] \<or> \<not> P (hd (dropWhile P xs))"
  using hd_dropWhile [of P xs] by blast

lemma dropWhile_self: "xs = [] \<or> \<not> P (hd xs) \<Longrightarrow> dropWhile P xs = xs"
  by (cases xs) auto

lemma rev_dropWhile_rev_decomp:
  "xs = rev (dropWhile P (rev xs)) @ rev (takeWhile P (rev xs))"
proof -
  have "rev (takeWhile P (rev xs) @ dropWhile P (rev xs)) = xs"
    by (simp only: takeWhile_dropWhile_id rev_rev_ident)
  then show ?thesis by (simp only: rev_append)
qed

lemma ws_normal_collapse: "ws_normal (collapse_whitespace s)"
proof (induction s rule: collapse_whitespace.induct)
  case 1
  show ?case by simp
next
  case (2 c cs)
  show ?case
  proof (cases "py_isspace c")
    case True
    let ?d = "dropWhile py_isspace cs"
    have "collapse_whitespace ?d = [] \<or> \<not> py_isspace (hd (collapse_whitespace ?d))"
      by (rule hd_collapse_whitespace) (rule dropWhile_hd)
    with 2 True show ?thesis by simp
  next
    case False
    with 2 show ?thesis by simp
  qed
qed

lemma collapse_ws_normal: "ws_normal s \<Longrightarrow> collapse_whitespace s = s"
proof (induction s rule: collapse_whitespace.induct)
  case 1
  show ?case by simp
next
  case (2 c cs)
  show ?case
  proof (cases "py_isspace c")
    case True
    with "2.prems" have c: "c = 32" and h: "cs = [] \<or> \<not> py_isspace (hd cs)" and n: "ws_normal cs"
      by auto
    from h have d: "dropWhile py_isspace cs = cs" by (cases cs) auto
    from "2.IH"(1) True n d have "collapse_whitespace cs = cs" by simp
    with True c d show ?thesis by simp
  next
    case False
    with 2 show ?thesis by simp
  qed
qed

lemma ws_normal_append: "ws_normal (xs @ ys) \<Longrightarrow> ws_normal xs \<and> ws_normal ys"
proof (induction xs)
  case Nil
  then show ?case by simp
next
  case (Cons x xs)
  then show ?case by (cases xs) auto
qed

lemma py_strip_decomp:
  "\<exists>p q. s = p @ py_strip s @ q"
proof -
  define a where "a = dropWhile py_isspace s"
  have "s = takeWhile py_isspace s @ a" by (simp add: a_def)
  moreover have "a = py_strip s @ rev (takeWhile py_isspace (rev a))"
    unfolding py_strip_def a_def [symmetric] by (rule rev_dropWhile_rev_decomp)
  ultimately have "s = takeWhile py_isspace s @ py_strip s @ rev (takeWhile py_isspace (rev a))"
    by simp
  then show ?thesis by blast
qed

lemma ws_normal_py_strip: "ws_normal s \<Longrightarrow> ws_normal (py_strip s)"
proof -
  assume n: "ws_normal s"
  obtain p q where "s = p @ py_strip s @ q" using py_strip_decomp by blast
  with n have "ws_normal (p @ py_strip s @ q)" by simp
  then show ?thesis using ws_normal_append by blast
qed

lemma py_strip_idem: "py_strip (py_strip s) = py_strip s"
proof -
  define a where "a = dropWhile py_isspace s"
  define b where "b = dropWhile py_isspace (rev a)"
  have s: "py_strip s = rev b" by (simp add: py_strip_def a_def b_def)
  have a: "a = rev b @ rev (takeWhile py_isspace (rev a))"
    unfolding b_def by (rule rev_dropWhile_rev_decomp)
  have "rev b = [] \<or> \<not> py_isspace (hd (rev b))"
  proof (cases "rev b = []")
    case True
    then show ?thesis by blast
  next
    case False
    with a have "hd a = hd (rev b)" and "a \<noteq> []" by (metis hd_append2, metis append_is_Nil_conv)
    moreover have "a = [] \<or> \<not> py_isspace (hd a)" unfolding a_def by (rule dropWhile_hd)
    ultimately show ?thesis by auto
  qed
  then have d1: "dropWhile py_isspace (rev b) = rev b" by (rule dropWhile_self)
  have d2: "dropWhile py_isspace b = b" unfolding b_def by (rule dropWhile_idem)
  have "py_strip (rev b) = rev (dropWhile py_isspace (rev (dropWhile py_isspace (rev b))))"
    by (simp only: py_strip_def)
  also have "\<dots> = rev b" by (simp only: d1 rev_rev_ident d2)
  finally show ?thesis using s by simp
qed

lemma normalize_str_fixed:
  assumes nf: "normalize_NFKC ext (normalize_str ext s) = normalize_str ext s"
    and tl: "\<not> starts_with_tilde (normalize_str ext s)"
  shows "normalize_str ext (normalize_str ext s) = normalize_str ext s"
proof -
  let ?r = "normalize_str ext s"
  have st: "\<And>c. c \<in> set ?r \<Longrightarrow>
      \<not> (8203 \<le> c \<and> c \<le> 8205) \<and> c \<noteq> 65279 \<and> c \<noteq> 160 \<and> c \<noteq> 8239"
    by (rule set_normalize_str)
  have z: "remove_zero_width ?r = ?r"
    unfolding remove_zero_width_def using st by (intro filter_True) blast
  have "map (\<lambda>c. if c = 160 then 32 else c) ?r = ?r"
    using st by (intro map_idI) auto
  moreover have "map (\<lambda>c. if c = 8239 then 32 else c) ?r = ?r"
    using st by (intro map_idI) auto
  ultimately have n: "replace_nbsp ?r = ?r"
    by (simp only: replace_nbsp_def)
  have t: "strip_leading_tilde ?r = ?r"
    using tl by (cases ?r) (auto simp: strip_leading_tilde_def starts_with_tilde_def)
  have w: "ws_normal ?r"
    unfolding normalize_str_def by (intro ws_normal_py_strip ws_normal_collapse)
  have c: "collapse_whitespace ?r = ?r" using w by (rule collapse_ws_normal)
  have p: "py_strip ?r = ?r" unfolding normalize_str_def by (rule py_strip_idem)
  have "normalize_str ext ?r = py_strip (collapse_whitespace (strip_leading_tilde (replace_nbsp
       (remove_zero_width (normalize_NFKC ext ?r)))))"
    by (simp only: normalize_str_def [of ext ?r])
  also have "\<dots> = ?r" by (simp only: nf z n t c p)
  finally show ?thesis .
qed

text \<open>
  Claim C4, as amended. For every string \<open>s\<close> whose normalized form \<open>r\<close> is its own NFKC
  form and does not begin with a tilde (U+007E or U+223C), normalizing \<open>r\<close> again gives
  \<open>r\<close>: \<open>normalize_author (normalize_author s) = normalize_author s\<close>.
\<close>

theorem normalize_author_idempotent_when_stable:
  assumes "normalize_author ext (PyStr s) = PyStr r"
    and "normalize_NFKC ext r = r"
    and "\<not> starts_with_tilde r"
  shows "normalize_author ext (normalize_author ext (PyStr s)) = normalize_author ext (PyStr s)"
proof -
  from assms(1) have r: "r = normalize_str ext s" by (simp add: normalize_author_def)
  with assms(2,3) have "normalize_str ext (normalize_str ext s) = normalize_str ext s"
    by (intro normalize_str_fixed) simp_all
  then show ?thesis by (simp add: normalize_author_def)
qed

lemmas norm_defs = normalize_author_def normalize_str_def
  normalize_NFKC_def remove_zero_width_def replace_nbsp_def strip_leading_tilde_def py_strip_def
  py_isspace_def

theorem normalize_author_idempotent_when_stable_witness:
  "normalize_author nfkc_nbsp (PyStr ([126, 160] @ ascii ''Jane'' @ [8203] @ ascii '' Doe'')) = PyStr (ascii ''Jane Doe'') \<and>
   normalize_NFKC nfkc_nbsp (ascii ''Jane Doe'') = ascii ''Jane Doe'' \<and>
   \<not> starts_with_tilde (ascii ''Jane Doe'') \<and>
   normalize_author nfkc_nbsp (normalize_author nfkc_nbsp (PyStr ([126, 160] @ ascii ''Jane'' @ [8203] @ ascii '' Doe''))) =
     PyStr (ascii ''Jane Doe'')"
proof -
  let ?ext = nfkc_nbsp
  let ?s = "[126, 160] @ ascii ''Jane'' @ [8203] @ ascii '' Doe''"
  have h1: "normalize_author ?ext (PyStr ?s) = PyStr (ascii ''Jane Doe'')"
    by (simp add: norm_defs ascii_def nfkc_nbsp_def)
  have h2: "normalize_NFKC ?ext (ascii ''Jane Doe'') = ascii ''Jane Doe''"
    by (simp add: normalize_NFKC_def ascii_def)
  have h3: "\<not> starts_with_tilde (ascii ''Jane Doe'')"
    by (simp add: starts_with_tilde_def ascii_def)
  from normalize_author_idempotent_when_stable [OF h1 h2 h3] h1 h2 h3
  show ?thesis by simp
qed

text \<open>
  Claim C4 as stated fails: line 62 removes one leading tilde only, so \<open>~~Jane\<close> becomes
  \<open>~Jane\<close>, and a second pass turns that into \<open>Jane\<close>.
\<close>

theorem normalize_author_not_idempotent:
  "normalize_author id (normalize_author id (PyStr (ascii ''~~Jane''))) \<noteq>
   normalize_author id (PyStr (ascii ''~~Jane''))"
  by (simp add: norm_defs ascii_def)

text \<open>
  Claim C10. For every argument that is not a string, \<open>normalize_author\<close> returns the
  argument itself, with no step of the pipeline applied and no exception.
\<close>

theorem normalize_author_non_str:
  "\<not> isinstance_str v \<Longrightarrow> normalize_author ext v = v"
  by (simp add: normalize_author_def)

theorem normalize_author_non_str_witness:
  "\<not> isinstance_str (PyList [PyInt 7, PyNone]) \<and>
   normalize_author id (PyList [PyInt 7, PyNone]) = PyList [PyInt 7, PyNone]"
  using normalize_author_non_str [of "PyList [PyInt 7, PyNone]" id] by simp

section \<open>The loop of \<open>process\<close>, step by step\<close>

lemma group0_Some: "group0 x = Some s \<longleftrightarrow> (\<exists>gs. x = Some (Some s # gs))"
  by (cases x rule: group0.cases) auto

lemma list_update_last: "xs \<noteq> [] \<Longrightarrow> xs[length xs - Suc 0 := x] = butlast xs @ [x]"
proof -
  assume "xs \<noteq> []"
  then have e: "xs = butlast xs @ [last xs]" by simp
  have "(butlast xs @ [last xs])[length (butlast xs) := x] = butlast xs @ [x]"
    by (rule list_update_length)
  with e show ?thesis by simp
qed

lemma process_loop_append:
  "process_loop cfg st (xs @ ys) =
     (case process_loop cfg st xs of Inl e \<Rightarrow> Inl e | Inr st' \<Rightarrow> process_loop cfg st' ys)"
  by (induction xs arbitrary: st) (auto split: sum.splits)

lemma process_line_cont_empty:
  "tsreg cfg l = None \<Longrightarrow> records st = [] \<Longrightarrow> process_line cfg st l = Inr st"
  by (simp add: process_line_def)

lemma process_line_cont:
  assumes "tsreg cfg l = None" "records st \<noteq> []"
    and "timestamp st = Some t" "author st = Some a" "msg st = Some m"
  shows "process_line cfg st l =
     Inr (st\<lparr>appended := appended st @ [t], msg := Some (m @ 32 # py_strip l),
       records := butlast (records st) @ [(t, a, m @ 32 # py_strip l)]\<rparr>)"
  using assms by (simp add: process_line_def Let_def list_update_last)

lemma tsreg_None:
  "tsreg cfg l = None \<Longrightarrow> parsed_timestamp cfg l = None \<and> accepted cfg l = None"
  by (simp add: parsed_timestamp_def accepted_def)

lemma accepted_parsed:
  "accepted cfg l = Some (t, a, m) \<Longrightarrow> parsed_timestamp cfg l = Some t"
  by (auto simp: accepted_def Let_def split: option.splits if_splits)

lemma parsed_tsreg: "parsed_timestamp cfg l = Some t \<Longrightarrow> tsreg cfg l \<noteq> None"
  by (auto simp: parsed_timestamp_def group0_Some split: option.splits)

lemma process_line_accepted:
  assumes "accepted cfg l = Some (t, a, m)"
  shows "process_line cfg st l =
     Inr (st\<lparr>timestamp := Some t, author := Some a, msg := Some m,
       records := records st @ [(t, a, m)]\<rparr>)"
  using assms
  by (auto simp: accepted_def parsed_timestamp_def process_line_def Let_def group0_Some
      split: option.splits if_splits)

lemma process_line_discarded:
  assumes "tsreg cfg l \<noteq> None" "accepted cfg l = None" "process_line cfg st l = Inr st'"
  shows "records st' = records st \<and> appended st' = appended st \<and> msg st' = msg st \<and>
     (case parsed_timestamp cfg l of
        None \<Rightarrow> st' = st
      | Some t \<Rightarrow> timestamp st' = Some t \<and> (author st' = author st \<or> author st' \<noteq> None))"
  using assms
  by (auto simp: accepted_def parsed_timestamp_def process_line_def Let_def
      split: option.splits if_splits list.splits)


lemma vars_bound_step:
  assumes "vars_bound st" "process_line cfg st l = Inr st'"
  shows "vars_bound st'"
proof (cases "tsreg cfg l")
  case None
  show ?thesis
  proof (cases "records st = []")
    case True
    with None assms show ?thesis by (simp add: process_line_cont_empty)
  next
    case False
    with assms(1) obtain t a where v: "timestamp st = Some t" "author st = Some a"
      "msg st = Some (snd (snd (last (records st))))"
      by (auto simp: vars_bound_def)
    from process_line_cont [OF None False v] assms(2) v show ?thesis
      by (auto simp: vars_bound_def)
  qed
next
  case (Some g)
  show ?thesis
  proof (cases "accepted cfg l")
    case None
    with Some assms(2) process_line_discarded [of cfg l st st']
    have d: "records st' = records st" "msg st' = msg st"
      "case parsed_timestamp cfg l of None \<Rightarrow> st' = st
       | Some t \<Rightarrow> timestamp st' = Some t \<and> (author st' = author st \<or> author st' \<noteq> None)"
      by simp_all
    with assms(1) show ?thesis
      by (cases "parsed_timestamp cfg l") (auto simp: vars_bound_def)
  next
    case (Some h)
    obtain t a m where "h = (t, a, m)" by (cases h)
    with Some process_line_accepted [of cfg l t a m st] assms(2) show ?thesis
      by (auto simp: vars_bound_def)
  qed
qed

lemma vars_bound_loop:
  "vars_bound st \<Longrightarrow> process_loop cfg st ls = Inr st' \<Longrightarrow> vars_bound st'"
proof (induction ls arbitrary: st)
  case Nil
  then show ?case by simp
next
  case (Cons l ls)
  then show ?case by (auto split: sum.splits dest: vars_bound_step)
qed

lemma vars_bound_init: "vars_bound init"
  by (simp add: vars_bound_def init_def)

lemma process_loop_conts:
  assumes "\<forall>c \<in> set conts. tsreg cfg c = None"
    and "records st = rs @ [(t, a, m)]"
    and "timestamp st = Some t" "author st = Some a" "msg st = Some m"
  shows "\<exists>st'. process_loop cfg st conts = Inr st' \<and>
     records st' = rs @ [(t, a, m @ concat (map (\<lambda>c. 32 # py_strip c) conts))] \<and>
     appended st' = appended st @ replicate (length conts) t"
  using assms
proof (induction conts arbitrary: st m)
  case Nil
  then show ?case by simp
next
  case (Cons c conts)
  let ?m = "m @ 32 # py_strip c"
  let ?st = "st\<lparr>appended := appended st @ [t], msg := Some ?m,
       records := butlast (records st) @ [(t, a, ?m)]\<rparr>"
  from Cons.prems have c: "tsreg cfg c = None" and ne: "records st \<noteq> []" by simp_all
  from process_line_cont [OF c ne Cons.prems(3,4,5)]
  have step: "process_line cfg st c = Inr ?st" .
  have "\<exists>st'. process_loop cfg ?st conts = Inr st' \<and>
     records st' = rs @ [(t, a, ?m @ concat (map (\<lambda>c. 32 # py_strip c) conts))] \<and>
     appended st' = appended ?st @ replicate (length conts) t"
    using Cons.prems by (intro Cons.IH) simp_all
  with step show ?case by (auto simp: replicate_app_Cons_same)
qed

lemma records_stable_step:
  assumes "process_line cfg st l = Inr st'"
  shows "length (records st) \<le> length (records st') \<and>
     (\<forall>i. Suc i < length (records st) \<longrightarrow> records st' ! i = records st ! i)"
proof (cases "tsreg cfg l")
  case None
  with assms show ?thesis
    by (auto simp: process_line_def Let_def split: if_splits option.splits)
next
  case (Some g)
  show ?thesis
  proof (cases "accepted cfg l")
    case None
    with Some assms process_line_discarded [of cfg l st st'] show ?thesis by simp
  next
    case (Some h)
    obtain t a m where "h = (t, a, m)" by (cases h)
    with Some process_line_accepted [of cfg l t a m st] assms show ?thesis
      by (auto simp: nth_append)
  qed
qed

lemma records_stable_loop:
  "process_loop cfg st ls = Inr st' \<Longrightarrow>
   length (records st) \<le> length (records st') \<and>
     (\<forall>i. Suc i < length (records st) \<longrightarrow> records st' ! i = records st ! i)"
proof (induction ls arbitrary: st)
  case Nil
  then show ?case by simp
next
  case (Cons l ls)
  from Cons.prems obtain st1 where s1: "process_line cfg st l = Inr st1"
    and s2: "process_loop cfg st1 ls = Inr st'"
    by (auto split: sum.splits)
  from records_stable_step [OF s1] Cons.IH [OF s2] show ?case by auto
qed

section \<open>Evaluating the example transcript\<close>

lemmas ex_defs = example_cfg_def line_alice_def line_world_def line_bob_def line_system_def
  line_left_def line_badts_def line_early_def readline_def ascii_def

lemmas run_defs = process_def init_def process_line_def drop_filter_def normalize_str_def
  normalize_NFKC_def remove_zero_width_def replace_nbsp_def strip_leading_tilde_def py_strip_def
  py_isspace_def Let_def


section \<open>The records of a pass\<close>

lemma process_loop_segment:
  assumes "\<forall>c \<in> set seg. accepted cfg c = None"
    and "process_loop cfg st seg = Inr st'"
    and "vars_bound st"
    and "records st = rs @ [(t, a, m)]"
  shows "\<exists>t' a'. records st' =
     rs @ [(t', a', m @ concat (map (\<lambda>c. 32 # py_strip c) (filter (\<lambda>c. tsreg cfg c = None) seg)))]"
  using assms
proof (induction seg arbitrary: st t a m)
  case Nil
  then show ?case by simp
next
  case (Cons c seg)
  from Cons.prems(2) obtain st1 where s1: "process_line cfg st c = Inr st1"
    and s2: "process_loop cfg st1 seg = Inr st'"
    by (auto split: sum.splits)
  from Cons.prems(1) have na: "accepted cfg c = None" and rest: "\<forall>c \<in> set seg. accepted cfg c = None"
    by simp_all
  from vars_bound_step [OF Cons.prems(3) s1] have vb1: "vars_bound st1" .
  show ?case
  proof (cases "tsreg cfg c")
    case None
    from Cons.prems(4) have ne: "records st \<noteq> []" by simp
    with Cons.prems(3,4) obtain t1 a1 where v: "timestamp st = Some t1" "author st = Some a1"
      "msg st = Some m"
      by (auto simp: vars_bound_def)
    from process_line_cont [OF None ne v] s1 Cons.prems(4)
    have r1: "records st1 = rs @ [(t1, a1, m @ 32 # py_strip c)]" by auto
    from Cons.IH [OF rest s2 vb1 r1] None show ?thesis by simp
  next
    case (Some g)
    with na s1 process_line_discarded [of cfg c st st1] Cons.prems(4)
    have r1: "records st1 = rs @ [(t, a, m)]" by simp
    from Cons.IH [OF rest s2 vb1 r1] Some show ?thesis by simp
  qed
qed

text \<open>
  Claim C5, as amended. Let the lines before line \<open>l\<close> be processed without an exception
  and let \<open>l\<close> match the timestamp pattern and be fully accepted (its timestamp parses, the
  message and author patterns match with their first groups, the author is not filtered).
  If none of the lines \<open>conts\<close> after it matches the timestamp pattern, then \<open>process\<close>
  returns on the input up to there, and the record of \<open>l\<close> is the last one, with the message
  made of the trimmed capture of \<open>l\<close> followed by the trimmed text of each line of \<open>conts\<close>,
  each piece after exactly one space (code point 32). In the final output, the message of
  that record is the trimmed capture of \<open>l\<close> followed, each after one space, by the trimmed
  text of every line that does not match the timestamp pattern between \<open>l\<close> and the next
  fully accepted line, or the end of the input: a discarded line that matches the timestamp
  pattern adds nothing to the message and does not end the run of continuation lines.
\<close>

theorem continuation_message:
  assumes pre: "process cfg pre = Inr (recs, app)"
    and ts: "tsreg cfg l = Some (Some tstr # tgs)" "strptime cfg tstr = Some t"
    and ms: "messagereg cfg l = Some (Some mraw # mgs)"
    and au: "authorreg cfg l = Some (Some araw # ags)"
    and keep: "\<not> drop_filter (drop_authors cfg) (normalize_str (nfkc cfg) (py_strip araw))"
    and conts: "\<forall>c \<in> set conts. tsreg cfg c = None"
  shows "process cfg (pre @ l # conts) =
       Inr (recs @ [(t, normalize_str (nfkc cfg) (py_strip araw),
                     py_strip mraw @ concat (map (\<lambda>c. 32 # py_strip c) conts))],
            app @ replicate (length conts) t) \<and>
     (\<forall>seg rest recs' app'.
        (\<forall>c \<in> set seg. accepted cfg c = None) \<longrightarrow>
        (rest = [] \<or> accepted cfg (hd rest) \<noteq> None) \<longrightarrow>
        process cfg (pre @ l # seg @ rest) = Inr (recs', app') \<longrightarrow>
        length recs < length recs' \<and>
        snd (snd (recs' ! length recs)) =
          py_strip mraw @
          concat (map (\<lambda>c. 32 # py_strip c) (filter (\<lambda>c. tsreg cfg c = None) seg)))"
proof -
  let ?a = "normalize_str (nfkc cfg) (py_strip araw)"
  let ?m = "py_strip mraw"
  let ?r = "(t, ?a, ?m @ concat (map (\<lambda>c. 32 # py_strip c) conts))"
  from pre obtain st0 where p0: "process_loop cfg init pre = Inr st0"
    and r0: "records st0 = recs" and a0: "appended st0 = app"
    by (auto simp: process_def split: sum.splits)
  let ?st1 = "st0\<lparr>timestamp := Some t, author := Some ?a, msg := Some ?m,
       records := records st0 @ [(t, ?a, ?m)]\<rparr>"
  from ts ms au keep have acc: "accepted cfg l = Some (t, ?a, ?m)"
    by (simp add: accepted_def parsed_timestamp_def)
  then have s1: "process_line cfg st0 l = Inr ?st1" by (rule process_line_accepted)
  have vb1: "vars_bound ?st1" by (simp add: vars_bound_def)
  have r1: "records ?st1 = recs @ [(t, ?a, ?m)]" by (simp add: r0)
  have "\<exists>st'. process_loop cfg ?st1 conts = Inr st' \<and> records st' = recs @ [?r] \<and>
      appended st' = appended ?st1 @ replicate (length conts) t"
    by (rule process_loop_conts [OF conts]) (simp_all add: r0)
  then obtain st2 where s2: "process_loop cfg ?st1 conts = Inr st2"
    and r2: "records st2 = recs @ [?r]"
    and a2': "appended st2 = appended ?st1 @ replicate (length conts) t"
    by blast
  from a2' a0 have a2: "appended st2 = app @ replicate (length conts) t" by simp
  have run: "process_loop cfg init (pre @ l # conts) = Inr st2"
    using process_loop_append [of cfg init pre "l # conts"] p0 s1 s2 by simp
  have first: "process cfg (pre @ l # conts) = Inr (recs @ [?r], app @ replicate (length conts) t)"
    using run r2 a2 by (simp add: process_def)
  have second: "length recs < length recs' \<and> snd (snd (recs' ! length recs)) =
      ?m @ concat (map (\<lambda>c. 32 # py_strip c) (filter (\<lambda>c. tsreg cfg c = None) seg))"
    if na: "\<forall>c \<in> set seg. accepted cfg c = None"
      and c: "rest = [] \<or> accepted cfg (hd rest) \<noteq> None"
      and p: "process cfg (pre @ l # seg @ rest) = Inr (recs', app')"
    for seg rest recs' app'
  proof -
    let ?M = "?m @ concat (map (\<lambda>c. 32 # py_strip c) (filter (\<lambda>c. tsreg cfg c = None) seg))"
    have "process_loop cfg init (pre @ l # seg @ rest) = process_loop cfg ?st1 (seg @ rest)"
      using process_loop_append [of cfg init pre "l # seg @ rest"] p0 s1 by simp
    with p obtain st4 where s4: "process_loop cfg ?st1 (seg @ rest) = Inr st4"
      and r4: "records st4 = recs'"
      by (auto simp: process_def split: sum.splits)
    from s4 obtain st3 where s3: "process_loop cfg ?st1 seg = Inr st3"
      and s34: "process_loop cfg st3 rest = Inr st4"
      by (auto simp: process_loop_append split: sum.splits)
    from process_loop_segment [OF na s3 vb1 r1]
    obtain t' a' where r3: "records st3 = recs @ [(t', a', ?M)]" by blast
    show ?thesis
    proof (cases rest)
      case Nil
      with s34 r3 r4 show ?thesis by auto
    next
      case (Cons l2 rest')
      with c obtain h where "accepted cfg l2 = Some h" by auto
      moreover obtain t2 a2 m2 where "h = (t2, a2, m2)" by (cases h)
      ultimately have "process_line cfg st3 l2 =
          Inr (st3\<lparr>timestamp := Some t2, author := Some a2, msg := Some m2,
            records := records st3 @ [(t2, a2, m2)]\<rparr>)"
        using process_line_accepted by simp
      with s34 Cons have "process_loop cfg (st3\<lparr>timestamp := Some t2, author := Some a2,
          msg := Some m2, records := records st3 @ [(t2, a2, m2)]\<rparr>) rest' = Inr st4"
        by simp
      from records_stable_loop [OF this] r3 r4
      have "Suc (Suc (length recs)) \<le> length recs'"
        and "recs' ! length recs = (recs @ [(t', a', ?M)] @ [(t2, a2, m2)]) ! length recs"
        by auto
      then show ?thesis by (simp add: nth_append)
    qed
  qed
  from first second show ?thesis by blast
qed

theorem continuation_message_witness:
  "process example_cfg [line_bob] = Inr ([(1672567260, ascii ''Bob'', ascii ''Hi'')], []) \<and>
   tsreg example_cfg line_world = None \<and>
   accepted example_cfg line_world = None \<and>
   accepted example_cfg line_badts = None \<and>
   accepted example_cfg (hd [line_early]) \<noteq> None \<and>
   process example_cfg [line_bob, line_alice, line_world, line_world] =
     Inr ([(1672567260, ascii ''Bob'', ascii ''Hi''),
           (1672567200, ascii ''Alice'', ascii ''Hello world world'')],
          [1672567200, 1672567200]) \<and>
   process example_cfg [line_bob, line_alice, line_world, line_badts, line_world, line_early] =
     Inr ([(1672567260, ascii ''Bob'', ascii ''Hi''),
           (1672567200, ascii ''Alice'', ascii ''Hello world world''),
           (1672567140, ascii ''Eve'', ascii ''Early'')],
          [1672567200, 1672567200]) \<and>
   snd (snd ([(1672567260 :: int, ascii ''Bob'', ascii ''Hi''),
    (1672567200, ascii ''Alice'', ascii ''Hello world world''),
    (1672567140, ascii ''Eve'', ascii ''Early'')] ! length [(1672567260 :: int, ascii ''Bob'', ascii ''Hi'')])) =
     ascii ''Hello world world''"
proof -
  have pre: "process example_cfg [line_bob] = Inr ([(1672567260, ascii ''Bob'', ascii ''Hi'')], [])"
    by (simp add: ex_defs run_defs)
  have ts: "tsreg example_cfg line_alice = Some (Some (ascii ''2023-01-01, 10:00'') # [])"
    by (simp add: ex_defs)
  have sp: "strptime example_cfg (ascii ''2023-01-01, 10:00'') = Some 1672567200"
    by (simp add: ex_defs)
  have ms: "messagereg example_cfg line_alice = Some (Some (ascii ''Hello'') # [])"
    by (simp add: ex_defs)
  have au: "authorreg example_cfg line_alice = Some (Some (ascii ''Alice'') # [])"
    by (simp add: ex_defs)
  have a: "normalize_str (nfkc example_cfg) (py_strip (ascii ''Alice'')) = ascii ''Alice''"
    by (simp add: ex_defs run_defs)
  have keep: "\<not> drop_filter (drop_authors example_cfg)
      (normalize_str (nfkc example_cfg) (py_strip (ascii ''Alice'')))"
    unfolding a by (simp add: ex_defs drop_filter_def)
  have cw: "tsreg example_cfg line_world = None"
    by (simp add: ex_defs)
  then have conts: "\<forall>c \<in> set [line_world, line_world]. tsreg example_cfg c = None"
    by simp
  have m: "py_strip (ascii ''Hello'') @ concat (map (\<lambda>c. 32 # py_strip c) [line_world, line_world])
      = ascii ''Hello world world''"
    by (simp add: ex_defs run_defs)
  have tb: "tsreg example_cfg line_badts \<noteq> None"
    by (simp add: ex_defs)
  have m2: "py_strip (ascii ''Hello'') @ concat (map (\<lambda>c. 32 # py_strip c)
      (filter (\<lambda>c. tsreg example_cfg c = None) [line_world, line_badts, line_world]))
      = ascii ''Hello world world''"
    unfolding filter.simps using cw tb by (simp add: ex_defs run_defs)
  have nw: "accepted example_cfg line_world = None"
    by (simp add: tsreg_None cw)
  have nb: "accepted example_cfg line_badts = None"
    by (simp add: ex_defs accepted_def parsed_timestamp_def)
  from nw nb have na: "\<forall>c \<in> set [line_world, line_badts, line_world]. accepted example_cfg c = None"
    by simp
  have acc: "accepted example_cfg (hd [line_early]) \<noteq> None"
    by (simp add: ex_defs run_defs accepted_def parsed_timestamp_def)
  have full: "process example_cfg
      ([line_bob] @ line_alice # [line_world, line_badts, line_world] @ [line_early]) =
     Inr ([(1672567260, ascii ''Bob'', ascii ''Hi''),
           (1672567200, ascii ''Alice'', ascii ''Hello world world''),
           (1672567140, ascii ''Eve'', ascii ''Early'')],
          [1672567200, 1672567200])"
    by (simp add: ex_defs run_defs)
  note inst = continuation_message [OF pre ts sp ms au keep conts, unfolded a]
  from inst have one: "process example_cfg ([line_bob] @ line_alice # [line_world, line_world]) =
       Inr ([(1672567260, ascii ''Bob'', ascii ''Hi'')] @
              [(1672567200, ascii ''Alice'',
                py_strip (ascii ''Hello'') @ concat (map (\<lambda>c. 32 # py_strip c) [line_world, line_world]))],
            [] @ replicate (length [line_world, line_world]) 1672567200)"
    by (rule conjunct1)
  have rep: "replicate (length [line_world, line_world]) (1672567200 :: int) = [1672567200, 1672567200]"
    by (simp add: numeral_2_eq_2)
  from one have one': "process example_cfg [line_bob, line_alice, line_world, line_world] =
     Inr ([(1672567260, ascii ''Bob'', ascii ''Hi''),
           (1672567200, ascii ''Alice'', ascii ''Hello world world'')],
          [1672567200, 1672567200])"
    unfolding rep m by simp
  from inst [THEN conjunct2, THEN spec, THEN spec, THEN spec, THEN spec, THEN mp, THEN mp, THEN mp,
      OF na disjI2 [OF acc] full]
  have two:
    "snd (snd ([(1672567260 :: int, ascii ''Bob'', ascii ''Hi''),
      (1672567200, ascii ''Alice'', ascii ''Hello world world''),
      (1672567140, ascii ''Eve'', ascii ''Early'')] ! length [(1672567260 :: int, ascii ''Bob'', ascii ''Hi'')])) =
     ascii ''Hello world world''"
    unfolding m2 by (rule conjunct2)
  from full have full': "process example_cfg
      [line_bob, line_alice, line_world, line_badts, line_world, line_early] =
     Inr ([(1672567260, ascii ''Bob'', ascii ''Hi''),
           (1672567200, ascii ''Alice'', ascii ''Hello world world''),
           (1672567140, ascii ''Eve'', ascii ''Early'')],
          [1672567200, 1672567200])"
    by simp
  from pre cw nw nb acc one' full' two show ?thesis by (intro conjI)
qed

text \<open>
  Claim C5 as stated fails. Alice's header is followed by one line that does not match the
  timestamp pattern and then by a line that matches it, so the run of the claim is that one
  line and the claimed message is \<open>Hello world\<close>. The matching line has a timestamp that does
  not parse and is discarded, the continuation target stays, and the line after it is
  merged into the same record: the message is \<open>Hello world world\<close>.
\<close>

theorem continuation_after_discarded_header:
  "accepted example_cfg line_alice = Some (1672567200, ascii ''Alice'', ascii ''Hello'') \<and>
   messagereg example_cfg line_alice = Some [Some (ascii ''Hello'')] \<and>
   tsreg example_cfg line_world = None \<and>
   tsreg example_cfg line_badts \<noteq> None \<and>
   process example_cfg [line_alice, line_world, line_badts, line_world] =
     Inr ([(1672567200, ascii ''Alice'', ascii ''Hello world world'')],
          [1672567200, 1672567200]) \<and>
   ascii ''Hello world world'' \<noteq> py_strip (ascii ''Hello'') @ 32 # py_strip line_world"
  by (simp add: ex_defs run_defs accepted_def parsed_timestamp_def)

text \<open>
  Claim C6. A line that matches the timestamp pattern and whose captured timestamp does
  not parse leaves every variable of the loop as it was: it adds no record, and the whole
  run returns what it returns on the input without that line, so the lines after it are
  merged into the same record as they would be without it.
\<close>

theorem unparsable_timestamp_ignored:
  assumes "tsreg cfg l = Some (Some tstr # tgs)" "strptime cfg tstr = None"
  shows "process_line cfg st l = Inr st \<and>
     process cfg (pre @ l # post) = process cfg (pre @ post)"
proof -
  have step: "process_line cfg st' l = Inr st'" for st'
    using assms by (simp add: process_line_def)
  have "process_loop cfg init (pre @ l # post) = process_loop cfg init (pre @ post)"
    using process_loop_append [of cfg init pre "l # post"] process_loop_append [of cfg init pre post]
      step
    by (simp split: sum.splits)
  with step show ?thesis by (simp add: process_def)
qed

theorem unparsable_timestamp_ignored_witness:
  "tsreg example_cfg line_badts = Some (Some (ascii ''2023-13-01, 10:04'') # []) \<and>
   strptime example_cfg (ascii ''2023-13-01, 10:04'') = None \<and>
   process example_cfg [line_alice, line_badts, line_world] =
     process example_cfg [line_alice, line_world] \<and>
   process example_cfg [line_alice, line_world] =
     Inr ([(1672567200, ascii ''Alice'', ascii ''Hello world'')], [1672567200])"
proof -
  have ts: "tsreg example_cfg line_badts = Some (Some (ascii ''2023-13-01, 10:04'') # [])"
    by (simp add: ex_defs)
  have sp: "strptime example_cfg (ascii ''2023-13-01, 10:04'') = None"
    by (simp add: ex_defs)
  have ev: "process example_cfg [line_alice, line_world] =
     Inr ([(1672567200, ascii ''Alice'', ascii ''Hello world'')], [1672567200])"
    by (simp add: ex_defs run_defs)
  from unparsable_timestamp_ignored [OF ts sp, of init "[line_alice]" "[line_world]"] ts sp ev
  show ?thesis by simp
qed

lemma extends_step:
  assumes step: "process_line cfg st l = Inr st'"
    and vb: "vars_bound st"
    and rel: "list_all2 (\<lambda>h r. prefix (snd (snd h)) (snd (snd r))) hs (records st)"
  shows "list_all2 (\<lambda>h r. prefix (snd (snd h)) (snd (snd r)))
     (hs @ (case accepted cfg l of None \<Rightarrow> [] | Some h \<Rightarrow> [h])) (records st')"
proof (cases "tsreg cfg l")
  case None
  then have acc: "accepted cfg l = None" by (simp add: tsreg_None)
  show ?thesis
  proof (cases "records st = []")
    case True
    with None step rel acc show ?thesis by (simp add: process_line_cont_empty)
  next
    case False
    with vb obtain t a where v: "timestamp st = Some t" "author st = Some a"
      "msg st = Some (snd (snd (last (records st))))"
      by (auto simp: vars_bound_def)
    let ?x = "(t, a, snd (snd (last (records st))) @ 32 # py_strip l)"
    from process_line_cont [OF None False v] step
    have r': "records st' = butlast (records st) @ [?x]" by auto
    from False have "records st = butlast (records st) @ [last (records st)]" by simp
    with rel have "list_all2 (\<lambda>h r. prefix (snd (snd h)) (snd (snd r))) hs
        (butlast (records st) @ [last (records st)])" by simp
    then obtain us vs where hs: "hs = us @ vs"
      and u: "list_all2 (\<lambda>h r. prefix (snd (snd h)) (snd (snd r))) us (butlast (records st))"
      and w: "list_all2 (\<lambda>h r. prefix (snd (snd h)) (snd (snd r))) vs [last (records st)]"
      by (auto simp: list_all2_append2)
    from w obtain h where vs: "vs = [h]"
      and p: "prefix (snd (snd h)) (snd (snd (last (records st))))"
      by (auto simp: list_all2_Cons2)
    from p have "prefix (snd (snd h)) (snd (snd ?x))" by simp
    then have "list_all2 (\<lambda>h r. prefix (snd (snd h)) (snd (snd r))) [h] [?x]" by simp
    with u have "list_all2 (\<lambda>h r. prefix (snd (snd h)) (snd (snd r))) (us @ [h])
        (butlast (records st) @ [?x])"
      by (rule list_all2_appendI)
    with hs vs r' acc show ?thesis by simp
  qed
next
  case (Some g)
  show ?thesis
  proof (cases "accepted cfg l")
    case None
    with Some step process_line_discarded [of cfg l st st'] rel show ?thesis by simp
  next
    case (Some h)
    obtain t a m where h: "h = (t, a, m)" by (cases h)
    with Some process_line_accepted [of cfg l t a m st] step
    have "records st' = records st @ [h]" by auto
    moreover have "list_all2 (\<lambda>h r. prefix (snd (snd h)) (snd (snd r))) [h] [h]" by simp
    with rel have "list_all2 (\<lambda>h r. prefix (snd (snd h)) (snd (snd r))) (hs @ [h])
        (records st @ [h])"
      by (rule list_all2_appendI)
    ultimately show ?thesis using Some by simp
  qed
qed

lemma extends_loop:
  assumes "process_loop cfg st ls = Inr st'" "vars_bound st"
    and "list_all2 (\<lambda>h r. prefix (snd (snd h)) (snd (snd r))) hs (records st)"
  shows "list_all2 (\<lambda>h r. prefix (snd (snd h)) (snd (snd r)))
     (hs @ List.map_filter (accepted cfg) ls) (records st')"
  using assms
proof (induction ls arbitrary: st hs)
  case Nil
  then show ?case by simp
next
  case (Cons l ls)
  from Cons.prems(1) obtain st1 where s1: "process_line cfg st l = Inr st1"
    and s2: "process_loop cfg st1 ls = Inr st'"
    by (auto split: sum.splits)
  from vars_bound_step [OF Cons.prems(2) s1] have vb: "vars_bound st1" .
  from extends_step [OF s1 Cons.prems(2,3)]
  have "list_all2 (\<lambda>h r. prefix (snd (snd h)) (snd (snd r)))
     (hs @ (case accepted cfg l of None \<Rightarrow> [] | Some h \<Rightarrow> [h])) (records st1)" .
  from Cons.IH [OF s2 vb this] show ?case
    by (cases "accepted cfg l") simp_all
qed

lemma ts_ordered_step:
  assumes step: "process_line cfg st l = Inr st'"
    and vb: "vars_bound st"
    and ord: "ts_ordered st"
    and le: "\<And>t tc. parsed_timestamp cfg l = Some t \<Longrightarrow> timestamp st = Some tc \<Longrightarrow> tc \<le> t"
  shows "ts_ordered st' \<and>
     timestamp st' = (case parsed_timestamp cfg l of None \<Rightarrow> timestamp st | Some t \<Rightarrow> Some t)"
proof (cases "tsreg cfg l")
  case None
  then have pt: "parsed_timestamp cfg l = None" by (simp add: tsreg_None)
  show ?thesis
  proof (cases "records st = []")
    case True
    with None step ord pt show ?thesis by (simp add: process_line_cont_empty)
  next
    case False
    with vb obtain t a where v: "timestamp st = Some t" "author st = Some a"
      "msg st = Some (snd (snd (last (records st))))"
      by (auto simp: vars_bound_def)
    let ?x = "(t, a, snd (snd (last (records st))) @ 32 # py_strip l)"
    from process_line_cont [OF None False v] step
    have r': "records st' = butlast (records st) @ [?x]" and t': "timestamp st' = Some t"
      using v by auto
    from ord v have s: "sorted (map fst (records st))"
      and b: "\<forall>r \<in> set (records st). fst r \<le> t"
      by (auto simp: ts_ordered_def)
    from s have "sorted (butlast (map fst (records st)))" using False by (simp add: sorted_butlast)
    then have s': "sorted (map fst (butlast (records st)))" by (simp add: map_butlast)
    from b have b': "\<forall>r \<in> set (butlast (records st)). fst r \<le> t"
      by (auto dest: in_set_butlastD)
    from s' b' have "sorted (map fst (butlast (records st) @ [?x]))"
      by (auto simp: sorted_append)
    with b' r' t' v pt show ?thesis by (auto simp: ts_ordered_def)
  qed
next
  case (Some g)
  from ord have s: "sorted (map fst (records st))" by (simp add: ts_ordered_def)
  show ?thesis
  proof (cases "parsed_timestamp cfg l")
    case None
    then have "accepted cfg l = None" by (simp add: accepted_def)
    with Some step process_line_discarded [of cfg l st st'] None ord show ?thesis by simp
  next
    case pt: (Some t)
    have b: "\<forall>r \<in> set (records st). fst r \<le> t"
    proof (cases "timestamp st")
      case None
      with vb have "records st = []" by (auto simp: vars_bound_def)
      then show ?thesis by simp
    next
      case (Some tc)
      with le [OF pt] have "tc \<le> t" by simp
      moreover from ord Some have "\<forall>r \<in> set (records st). fst r \<le> tc"
        by (simp add: ts_ordered_def)
      ultimately show ?thesis by fastforce
    qed
    show ?thesis
    proof (cases "accepted cfg l")
      case None
      with \<open>tsreg cfg l = Some g\<close> step process_line_discarded [of cfg l st st'] pt
      have "records st' = records st" "timestamp st' = Some t" by simp_all
      with s b pt show ?thesis by (simp add: ts_ordered_def)
    next
      case (Some h)
      obtain t2 a m where h: "h = (t2, a, m)" by (cases h)
      with Some accepted_parsed [of cfg l t2 a m] pt have "t2 = t" by simp
      with h Some process_line_accepted [of cfg l t a m st] step
      have "records st' = records st @ [(t, a, m)]" "timestamp st' = Some t" by auto
      with s b pt show ?thesis by (auto simp: ts_ordered_def sorted_append)
    qed
  qed
qed

lemma ts_ordered_loop:
  assumes "process_loop cfg st ls = Inr st'" "vars_bound st" "ts_ordered st"
    and "sorted (List.map_filter (parsed_timestamp cfg) ls)"
    and "\<And>t tc. t \<in> set (List.map_filter (parsed_timestamp cfg) ls) \<Longrightarrow>
           timestamp st = Some tc \<Longrightarrow> tc \<le> t"
  shows "ts_ordered st'"
  using assms
proof (induction ls arbitrary: st)
  case Nil
  then show ?case by simp
next
  case (Cons l ls)
  from Cons.prems(1) obtain st1 where s1: "process_line cfg st l = Inr st1"
    and s2: "process_loop cfg st1 ls = Inr st'"
    by (auto split: sum.splits)
  from vars_bound_step [OF Cons.prems(2) s1] have vb: "vars_bound st1" .
  have le: "tc \<le> t" if "parsed_timestamp cfg l = Some t" "timestamp st = Some tc" for t tc
    using Cons.prems(5) [of t tc] that by simp
  from ts_ordered_step [OF s1 Cons.prems(2,3) le]
  have o1: "ts_ordered st1"
    and t1: "timestamp st1 =
      (case parsed_timestamp cfg l of None \<Rightarrow> timestamp st | Some t \<Rightarrow> Some t)"
    by simp_all
  have srt: "sorted (List.map_filter (parsed_timestamp cfg) ls)"
    using Cons.prems(4) by (cases "parsed_timestamp cfg l") simp_all
  have le1: "tc \<le> t"
    if m: "t \<in> set (List.map_filter (parsed_timestamp cfg) ls)" and c: "timestamp st1 = Some tc"
    for t tc
  proof (cases "parsed_timestamp cfg l")
    case None
    with t1 c have "timestamp st = Some tc" by simp
    moreover from m None have "t \<in> set (List.map_filter (parsed_timestamp cfg) (l # ls))"
      by simp
    ultimately show ?thesis by (rule Cons.prems(5) [rotated])
  next
    case (Some t0)
    with t1 c have "tc = t0" by simp
    moreover from Cons.prems(4) Some m have "t0 \<le> t" by simp
    ultimately show ?thesis by simp
  qed
  from Cons.IH [OF s2 vb o1 srt le1] show ?case .
qed

text \<open>
  Claim C9, as amended. The output has one record for each accepted header line, in the
  order of these lines in the input, and the message of each record begins with the trimmed
  message capture of its header line. The timestamps of the records are non-decreasing
  whenever the timestamps parsed from the lines of the input are non-decreasing in input
  order.
\<close>

theorem records_follow_headers:
  assumes "process cfg lines = Inr (recs, app)"
  shows "list_all2 (\<lambda>h r. prefix (snd (snd h)) (snd (snd r)))
       (List.map_filter (accepted cfg) lines) recs \<and>
     (sorted (List.map_filter (parsed_timestamp cfg) lines) \<longrightarrow> sorted (map fst recs))"
proof -
  from assms obtain st where run: "process_loop cfg init lines = Inr st"
    and r: "records st = recs"
    by (auto simp: process_def split: sum.splits)
  have i: "records init = []" "timestamp init = None" by (simp_all add: init_def)
  have "list_all2 (\<lambda>h r. prefix (snd (snd h)) (snd (snd r)))
       ([] @ List.map_filter (accepted cfg) lines) (records st)"
    using run vars_bound_init by (rule extends_loop) (simp add: i)
  moreover have "sorted (map fst (records st))"
    if "sorted (List.map_filter (parsed_timestamp cfg) lines)"
  proof -
    have "ts_ordered init" by (simp add: ts_ordered_def i)
    with run vars_bound_init have "ts_ordered st"
      using that by (rule ts_ordered_loop) (simp add: i)
    then show ?thesis by (simp add: ts_ordered_def)
  qed
  ultimately show ?thesis using r by simp
qed

theorem records_follow_headers_witness:
  "process example_cfg [line_alice, line_world, line_bob] =
     Inr ([(1672567200, ascii ''Alice'', ascii ''Hello world''),
           (1672567260, ascii ''Bob'', ascii ''Hi'')], [1672567200]) \<and>
   List.map_filter (accepted example_cfg) [line_alice, line_world, line_bob] =
     [(1672567200, ascii ''Alice'', ascii ''Hello''), (1672567260, ascii ''Bob'', ascii ''Hi'')] \<and>
   sorted (List.map_filter (parsed_timestamp example_cfg) [line_alice, line_world, line_bob]) \<and>
   list_all2 (\<lambda>h r. prefix (snd (snd h)) (snd (snd r)))
     (List.map_filter (accepted example_cfg) [line_alice, line_world, line_bob])
     [(1672567200 :: int, ascii ''Alice'', ascii ''Hello world''),
      (1672567260, ascii ''Bob'', ascii ''Hi'')] \<and>
   sorted (map fst [(1672567200 :: int, ascii ''Alice'', ascii ''Hello world''),
      (1672567260, ascii ''Bob'', ascii ''Hi'')])"
proof -
  have ev: "process example_cfg [line_alice, line_world, line_bob] =
     Inr ([(1672567200, ascii ''Alice'', ascii ''Hello world''),
           (1672567260, ascii ''Bob'', ascii ''Hi'')], [1672567200])"
    by (simp add: ex_defs run_defs)
  have hs: "List.map_filter (accepted example_cfg) [line_alice, line_world, line_bob] =
     [(1672567200, ascii ''Alice'', ascii ''Hello''), (1672567260, ascii ''Bob'', ascii ''Hi'')]"
    by (simp add: ex_defs run_defs accepted_def parsed_timestamp_def)
  have srt: "sorted (List.map_filter (parsed_timestamp example_cfg) [line_alice, line_world, line_bob])"
    by (simp add: ex_defs parsed_timestamp_def)
  from records_follow_headers [OF ev] srt ev hs show ?thesis by blast
qed

text \<open>
  Claim C9 as stated fails: nothing sorts the records, so an export whose second message
  carries an earlier time than its first gives records whose timestamps decrease.
\<close>

theorem timestamps_not_sorted:
  "process example_cfg [line_bob, line_early] =
     Inr ([(1672567260, ascii ''Bob'', ascii ''Hi''),
           (1672567140, ascii ''Eve'', ascii ''Early'')], []) \<and>
   \<not> sorted (map fst [(1672567260 :: int, ascii ''Bob'', ascii ''Hi''),
           (1672567140, ascii ''Eve'', ascii ''Early'')])"
  by (simp add: ex_defs run_defs)

text \<open>
  Claim C1 against the code. After a header line of a filtered author, the variables
  \<open>timestamp\<close> and \<open>author\<close> hold the values of that line; the continuation line that
  follows writes them into the last record, whose author and timestamp change from those
  of Alice's line to those of the filtered line.
\<close>

theorem continuation_takes_stale_author:
  "process example_cfg [line_alice, line_system] =
     Inr ([(1672567200, ascii ''Alice'', ascii ''Hello'')], []) \<and>
   process example_cfg [line_alice, line_system, line_world] =
     Inr ([(1672567320, ascii ''System'', ascii ''Hello world'')], [1672567320])"
  by (simp add: ex_defs run_defs)

text \<open>
  Claim C2 against the code. \<open>System\<close> is a configured drop-substring, the line of author
  \<open>System\<close> is skipped, and the continuation line after it still produces a record whose
  author is \<open>System\<close>, carrying Bob's message.
\<close>

theorem dropped_author_in_output:
  "drop_filter (drop_authors example_cfg) (ascii ''System'') \<and>
   process example_cfg [line_bob, line_system, line_world] =
     Inr ([(1672567320, ascii ''System'', ascii ''Hi world'')], [1672567320])"
  by (simp add: ex_defs run_defs)

text \<open>
  Claim C3 against the code. A header line whose timestamp parses and whose message
  pattern fails is discarded after line 102 has assigned \<open>timestamp\<close>; the continuation
  line that follows moves Alice's record to the time of the discarded line.
\<close>

theorem failed_header_changes_timestamp:
  "process example_cfg [line_alice, line_world] =
     Inr ([(1672567200, ascii ''Alice'', ascii ''Hello world'')], [1672567200]) \<and>
   process example_cfg [line_alice, line_left, line_world] =
     Inr ([(1672567380, ascii ''Alice'', ascii ''Hello world'')], [1672567380])"
  by (simp add: ex_defs run_defs)

end
